theory Spec2Isabelle
  imports Main "HOL-Library.Sublist"
begin

section \<open>Python values used by \<^verbatim>\<open>scripts/cr_transcripts.py\<close>\<close>

text \<open>
  A Python \<^verbatim>\<open>str\<close> is modelled as a \<^typ>\<open>string\<close>, each \<^typ>\<open>char\<close> standing for the code
  point of the same number (0 to 255). The operations of the script that can raise are
  modelled with a result of type \<open>py_error + 'a\<close>, \<open>Inl\<close> being the exception.
\<close>

datatype py_error = IndexError | KeyError | TypeError

text \<open>\<^verbatim>\<open>xs[-1]\<close>: the last item, \<^verbatim>\<open>IndexError\<close> on the empty list.\<close>

definition getitem_last :: "'a list \<Rightarrow> py_error + 'a" where
  "getitem_last xs = (if xs = [] then Inl IndexError else Inr (last xs))"

text \<open>\<^verbatim>\<open>d[k]\<close>: subscription of a dict, \<^verbatim>\<open>KeyError\<close> on a missing key.\<close>

definition getitem :: "('k \<rightharpoonup> 'v) \<Rightarrow> 'k \<Rightarrow> py_error + 'v" where
  "getitem d k = (case d k of None \<Rightarrow> Inl KeyError | Some v \<Rightarrow> Inr v)"

text \<open>
  \<^verbatim>\<open>dict(attrs)\<close> on a list of pairs: a later pair overrides an earlier one with the same
  key. \<^verbatim>\<open>d.get(k)\<close> is the value stored under \<open>k\<close>, or \<^verbatim>\<open>None\<close> when the key is missing;
  the values of an attribute dict are themselves optional strings.
\<close>

definition dict :: "('k \<times> 'v) list \<Rightarrow> ('k \<rightharpoonup> 'v)" where
  "dict kvs = map_of (rev kvs)"

text \<open>\<^verbatim>\<open>k in d\<close>: whether the dict has the key.\<close>

definition has_key :: "('k \<rightharpoonup> 'v) \<Rightarrow> 'k \<Rightarrow> bool" where
  "has_key d k = (d k \<noteq> None)"

definition dict_get :: "('k \<rightharpoonup> 'v option) \<Rightarrow> 'k \<Rightarrow> 'v option" where
  "dict_get d k = (case d k of None \<Rightarrow> None | Some v \<Rightarrow> v)"

text \<open>
  \<^verbatim>\<open>str.isspace\<close> on the code points below 256: tab, line feed, vertical tab, form feed,
  carriage return, the four separators 28 to 31, space, next line (133) and no-break
  space (160). \<^verbatim>\<open>s.strip()\<close> removes these from both ends.
\<close>

definition isspace :: "char \<Rightarrow> bool" where
  "isspace c = ((of_char c :: nat) \<in> {9, 10, 11, 12, 13, 28, 29, 30, 31, 32, 133, 160})"

definition strip :: "string \<Rightarrow> string" where
  "strip s = rev (dropWhile isspace (rev (dropWhile isspace s)))"

text \<open>The truth value of an optional string: \<^verbatim>\<open>None\<close> and the empty string are false.\<close>

definition truthy :: "string option \<Rightarrow> bool" where
  "truthy v = (case v of None \<Rightarrow> False | Some s \<Rightarrow> s \<noteq> [])"

subsection \<open>The regular expressions of the script\<close>

text \<open>
  The pattern \<^verbatim>\<open>^cr.+\.html$\<close> uses four constructs of Python's \<^verbatim>\<open>re\<close>, compiled without
  flags: \<^verbatim>\<open>^\<close> (the start of the string), a literal character, \<^verbatim>\<open>.+\<close> (one or more
  characters, none of them a line feed) and \<^verbatim>\<open>$\<close> (the end of the string, or the
  position before a line feed that ends the string).
\<close>

datatype re_node = Bol | Lit char | DotPlus | Eol

text \<open>
  \<open>re_match_at ns b s\<close>: the nodes \<open>ns\<close> match some prefix of \<open>s\<close>, where \<open>b\<close> tells
  whether \<open>s\<close> begins at the start of the subject string. \<^verbatim>\<open>.+\<close> tries the longer
  repetition first and backtracks.
\<close>

fun re_match_at :: "re_node list \<Rightarrow> bool \<Rightarrow> string \<Rightarrow> bool" where
  "re_match_at [] b s = True"
| "re_match_at (Bol # ns) b s = (b \<and> re_match_at ns b s)"
| "re_match_at (Eol # ns) b s = ((s = [] \<or> s = [CHR 0x0A]) \<and> re_match_at ns b s)"
| "re_match_at (Lit c # ns) b [] = False"
| "re_match_at (Lit c # ns) b (x # xs) = (x = c \<and> re_match_at ns False xs)"
| "re_match_at (DotPlus # ns) b [] = False"
| "re_match_at (DotPlus # ns) b (x # xs) =
     (x \<noteq> CHR 0x0A \<and> (re_match_at (DotPlus # ns) False xs \<or> re_match_at ns False xs))"

text \<open>
  \<^verbatim>\<open>pattern.match(v)\<close>: a match at the start of \<open>v\<close>; \<^verbatim>\<open>TypeError\<close> when \<open>v\<close> is \<^verbatim>\<open>None\<close>.
  The result is the truth value of the match object.
\<close>

definition re_match :: "re_node list \<Rightarrow> string option \<Rightarrow> py_error + bool" where
  "re_match ns v = (case v of None \<Rightarrow> Inl TypeError | Some s \<Rightarrow> Inr (re_match_at ns True s))"

section \<open>The events of the tokenizer\<close>

text \<open>
  \<^verbatim>\<open>html.parser.HTMLParser.feed\<close> calls \<^verbatim>\<open>handle_starttag(tag, attrs)\<close>,
  \<^verbatim>\<open>handle_endtag(tag)\<close> and \<^verbatim>\<open>handle_data(data)\<close> in document order. The tokenizer is
  outside the script; a document is modelled as the list of these calls.
\<close>

type_synonym attrs = "(string \<times> string option) list"

datatype event = StartTag string attrs | EndTag string | Data string

section \<open>\<^verbatim>\<open>CRIndexParser\<close>\<close>

record index_parser =
  in_main :: bool
  transcript_files :: "string set"

definition TRANSCRIPT_RE :: "re_node list" where
  "TRANSCRIPT_RE =
     [Bol, Lit CHR ''c'', Lit CHR ''r'', DotPlus, Lit CHR ''.'', Lit CHR ''h'',
      Lit CHR ''t'', Lit CHR ''m'', Lit CHR ''l'', Eol]"

definition CRIndexParser_init :: index_parser where
  "CRIndexParser_init = \<lparr>in_main = False, transcript_files = {}\<rparr>"

definition CRIndexParser_handle_starttag ::
  "index_parser \<Rightarrow> string \<Rightarrow> attrs \<Rightarrow> py_error + index_parser" where
  "CRIndexParser_handle_starttag p tag as =
     (if tag = ''main'' then Inr (p\<lparr>in_main := True\<rparr>)
      else if tag = ''a'' \<and> in_main p then
        (let attr_dict = dict as;
             href = dict_get attr_dict ''href''
         in if href \<noteq> None then
              (case re_match TRANSCRIPT_RE href of
                 Inl e \<Rightarrow> Inl e
               | Inr m \<Rightarrow>
                   if m then Inr (p\<lparr>transcript_files := insert (the href) (transcript_files p)\<rparr>)
                   else Inr p)
            else Inr p)
      else Inr p)"

definition CRIndexParser_handle_endtag :: "index_parser \<Rightarrow> string \<Rightarrow> py_error + index_parser" where
  "CRIndexParser_handle_endtag p tag =
     (if tag = ''main'' then Inr (p\<lparr>in_main := False\<rparr>) else Inr p)"

text \<open>\<^verbatim>\<open>handle_data\<close> is not overridden: the base class ignores the data.\<close>

fun CRIndexParser_event :: "index_parser \<Rightarrow> event \<Rightarrow> py_error + index_parser" where
  "CRIndexParser_event p (StartTag tag as) = CRIndexParser_handle_starttag p tag as"
| "CRIndexParser_event p (EndTag tag) = CRIndexParser_handle_endtag p tag"
| "CRIndexParser_event p (Data d) = Inr p"

text \<open>\<^verbatim>\<open>feed\<close>: the handlers run in order; an exception of a handler ends the parse.\<close>

fun CRIndexParser_feed :: "index_parser \<Rightarrow> event list \<Rightarrow> py_error + index_parser" where
  "CRIndexParser_feed p [] = Inr p"
| "CRIndexParser_feed p (e # es) =
     (case CRIndexParser_event p e of Inl err \<Rightarrow> Inl err | Inr p' \<Rightarrow> CRIndexParser_feed p' es)"

section \<open>\<^verbatim>\<open>CRTranscriptParser\<close>\<close>

text \<open>
  A transcript line is a dict with the keys \<^verbatim>\<open>"name"\<close> and \<^verbatim>\<open>"text"\<close>. Every dict of
  \<^verbatim>\<open>self.lines\<close> is created by \<^verbatim>\<open>handle_data\<close> and referenced from the list only, so the
  assignment through \<^verbatim>\<open>cur_dat\<close> is an update of the last item of the list.
\<close>

type_synonym line = "string \<rightharpoonup> string"

record transcript_parser =
  in_lines :: bool
  lines :: "line list"
  process :: "string option"

definition CRTranscriptParser_init :: transcript_parser where
  "CRTranscriptParser_init = \<lparr>in_lines = False, lines = [], process = None\<rparr>"

definition CRTranscriptParser_handle_starttag ::
  "transcript_parser \<Rightarrow> string \<Rightarrow> attrs \<Rightarrow> py_error + transcript_parser" where
  "CRTranscriptParser_handle_starttag p tag as =
     (if tag = ''div'' \<and> (''id'', Some ''lines'') \<in> set as then Inr (p\<lparr>in_lines := True\<rparr>)
      else if tag = ''strong'' \<and> in_lines p then Inr (p\<lparr>process := Some ''name''\<rparr>)
      else if tag = ''dd'' \<and> in_lines p then Inr (p\<lparr>process := Some ''text''\<rparr>)
      else Inr p)"

text \<open>
  The \<^verbatim>\<open>"text"\<close> branch: \<^verbatim>\<open>cur_dat\<close> is the last line, or a fresh dict that is dropped at
  the end of the call when there is no line yet.
\<close>

definition set_text :: "transcript_parser \<Rightarrow> string \<Rightarrow> py_error + transcript_parser" where
  "set_text p data =
     (case (if lines p \<noteq> [] then getitem_last (lines p) else Inr Map.empty) of
        Inl e \<Rightarrow> Inl e
      | Inr cur_dat \<Rightarrow>
          (case (if has_key cur_dat ''text''
                 then (case getitem cur_dat ''text'' of
                         Inl e \<Rightarrow> Inl e
                       | Inr t \<Rightarrow> Inr (cur_dat(''text'' \<mapsto> t @ '' '' @ strip data)))
                 else Inr (cur_dat(''text'' \<mapsto> strip data))) of
             Inl e \<Rightarrow> Inl e
           | Inr cur_dat' \<Rightarrow>
               Inr (if lines p \<noteq> [] then p\<lparr>lines := butlast (lines p) @ [cur_dat']\<rparr> else p)))"

definition CRTranscriptParser_handle_data ::
  "transcript_parser \<Rightarrow> string \<Rightarrow> py_error + transcript_parser" where
  "CRTranscriptParser_handle_data p data =
     (case (if truthy (process p) then
              if process p = Some ''name'' then
                Inr (p\<lparr>lines := lines p @ [[''name'' \<mapsto> strip data]]\<rparr>)
              else if process p = Some ''text'' then set_text p data
              else Inr p
            else Inr p) of
        Inl e \<Rightarrow> Inl e
      | Inr p' \<Rightarrow> Inr (p'\<lparr>process := None\<rparr>))"

text \<open>\<^verbatim>\<open>handle_endtag\<close> is not overridden: the base class ignores the tag.\<close>

fun CRTranscriptParser_event ::
  "transcript_parser \<Rightarrow> event \<Rightarrow> py_error + transcript_parser" where
  "CRTranscriptParser_event p (StartTag tag as) = CRTranscriptParser_handle_starttag p tag as"
| "CRTranscriptParser_event p (EndTag tag) = Inr p"
| "CRTranscriptParser_event p (Data d) = CRTranscriptParser_handle_data p d"

fun CRTranscriptParser_feed ::
  "transcript_parser \<Rightarrow> event list \<Rightarrow> py_error + transcript_parser" where
  "CRTranscriptParser_feed p [] = Inr p"
| "CRTranscriptParser_feed p (e # es) =
     (case CRTranscriptParser_event p e of
        Inl err \<Rightarrow> Inl err
      | Inr p' \<Rightarrow> CRTranscriptParser_feed p' es)"

section \<open>Rendering (the loop over \<^verbatim>\<open>parser.lines\<close> in \<^verbatim>\<open>main\<close>)\<close>

text \<open>The text written to the output file for one line, and for all of them in order.\<close>

definition write_line :: "bool \<Rightarrow> line \<Rightarrow> py_error + string" where
  "write_line include_names ln =
     (case (if include_names \<and> has_key ln ''name''
            then (case getitem ln ''name'' of
                    Inl e \<Rightarrow> Inl e
                  | Inr n \<Rightarrow> Inr (''**'' @ n @ ''**: ''))
            else Inr []) of
        Inl e \<Rightarrow> Inl e
      | Inr out1 \<Rightarrow>
          (if has_key ln ''text''
           then (case getitem ln ''text'' of
                   Inl e \<Rightarrow> Inl e
                 | Inr t \<Rightarrow> Inr (out1 @ t @ [CHR 0x0A]))
           else Inr out1))"

fun write_lines :: "bool \<Rightarrow> line list \<Rightarrow> py_error + string" where
  "write_lines include_names [] = Inr []"
| "write_lines include_names (ln # lns) =
     (case write_line include_names ln of
        Inl e \<Rightarrow> Inl e
      | Inr out1 \<Rightarrow>
          (case write_lines include_names lns of
             Inl e \<Rightarrow> Inl e
           | Inr out2 \<Rightarrow> Inr (out1 @ out2)))"

section \<open>Events between the markers\<close>

text \<open>
  A name marker is the open tag \<^verbatim>\<open>strong\<close> inside the lines region, a dialogue marker the
  open tag \<^verbatim>\<open>dd\<close>; the data event that follows a marker is its Name or Text event.
  \<open>no_marker e\<close>: the event \<open>e\<close> is neither of the two open tags.
\<close>

definition no_marker :: "event \<Rightarrow> bool" where
  "no_marker e = (case e of StartTag tag as \<Rightarrow> tag \<noteq> ''strong'' \<and> tag \<noteq> ''dd'' | _ \<Rightarrow> True)"

section \<open>The handlers of \<^verbatim>\<open>CRTranscriptParser\<close> never raise\<close>

lemma set_text_Inr:
  "set_text p d =
     Inr (if lines p = [] then p
          else p\<lparr>lines := butlast (lines p) @
                 [(last (lines p))(''text'' \<mapsto>
                    (case last (lines p) ''text'' of
                       None \<Rightarrow> strip d
                     | Some t \<Rightarrow> t @ '' '' @ strip d))]\<rparr>)"
  by (simp add: set_text_def getitem_last_def getitem_def has_key_def split: option.split)

lemma handle_data_None [simp]:
  "process p = None \<Longrightarrow> CRTranscriptParser_handle_data p d = Inr p"
  by (simp add: CRTranscriptParser_handle_data_def truthy_def)

lemma handle_data_name:
  "process p = Some ''name'' \<Longrightarrow>
   CRTranscriptParser_handle_data p d =
     Inr (p\<lparr>lines := lines p @ [[''name'' \<mapsto> strip d]], process := None\<rparr>)"
  by (simp add: CRTranscriptParser_handle_data_def truthy_def)

lemma handle_data_text:
  "process p = Some ''text'' \<Longrightarrow>
   CRTranscriptParser_handle_data p d =
     Inr (if lines p = [] then p\<lparr>process := None\<rparr>
          else p\<lparr>lines := butlast (lines p) @
                 [(last (lines p))(''text'' \<mapsto>
                    (case last (lines p) ''text'' of
                       None \<Rightarrow> strip d
                     | Some t \<Rightarrow> t @ '' '' @ strip d))], process := None\<rparr>)"
  by (simp add: CRTranscriptParser_handle_data_def truthy_def set_text_Inr)

lemma handle_data_total:
  "\<exists>q. CRTranscriptParser_handle_data p d = Inr q \<and> process q = None \<and> in_lines q = in_lines p"
  by (simp add: CRTranscriptParser_handle_data_def set_text_Inr)

lemma handle_starttag_total:
  "\<exists>q. CRTranscriptParser_handle_starttag p tag as = Inr q \<and> lines q = lines p"
  by (simp add: CRTranscriptParser_handle_starttag_def)

lemma event_total: "\<exists>q. CRTranscriptParser_event p e = Inr q"
  using handle_data_total handle_starttag_total by (cases e) (simp_all, blast+)

lemma feed_append:
  "CRTranscriptParser_feed p (xs @ ys) =
     (case CRTranscriptParser_feed p xs of
        Inl err \<Rightarrow> Inl err
      | Inr q \<Rightarrow> CRTranscriptParser_feed q ys)"
  by (induction xs arbitrary: p) (simp_all split: sum.split)

lemma feed_total: "\<exists>q. CRTranscriptParser_feed p es = Inr q"
proof (induction es arbitrary: p)
  case Nil
  show ?case by simp
next
  case (Cons e es)
  obtain q where "CRTranscriptParser_event p e = Inr q"
    using event_total by blast
  with Cons.IH [of q] show ?case by simp
qed

section \<open>Steps of the transcript parser\<close>

lemma feed_no_marker:
  "in_lines p \<Longrightarrow> process p = None \<Longrightarrow> \<forall>e\<in>set g. no_marker e \<Longrightarrow>
   CRTranscriptParser_feed p g = Inr p"
proof (induction g)
  case Nil
  show ?case by simp
next
  case (Cons e g)
  from Cons.prems have "CRTranscriptParser_event p e = Inr p"
    by (cases e) (simp_all add: no_marker_def CRTranscriptParser_handle_starttag_def)
  with Cons show ?case by simp
qed

lemma feed_name:
  "in_lines p \<Longrightarrow>
   CRTranscriptParser_feed p (StartTag ''strong'' as # Data n # es) =
     CRTranscriptParser_feed (p\<lparr>lines := lines p @ [[''name'' \<mapsto> strip n]], process := None\<rparr>) es"
  by (simp add: CRTranscriptParser_handle_starttag_def handle_data_name)

lemma feed_text:
  "in_lines p \<Longrightarrow> lines p = ls @ [l] \<Longrightarrow>
   CRTranscriptParser_feed p (StartTag ''dd'' as # Data t # es) =
     CRTranscriptParser_feed
       (p\<lparr>lines := ls @ [l(''text'' \<mapsto>
             (case l ''text'' of None \<Rightarrow> strip t | Some t0 \<Rightarrow> t0 @ '' '' @ strip t))],
          process := None\<rparr>) es"
  by (simp add: CRTranscriptParser_handle_starttag_def handle_data_text)

lemma feed_gap:
  "in_lines p \<Longrightarrow> process p = None \<Longrightarrow> \<forall>e\<in>set g. no_marker e \<Longrightarrow>
   CRTranscriptParser_feed p (g @ es) = CRTranscriptParser_feed p es"
  by (simp add: feed_append feed_no_marker)

lemma handle_data_lines:
  "CRTranscriptParser_handle_data p d = Inr q \<Longrightarrow>
   lines q = lines p \<or> (\<exists>l. lines q = lines p @ [l]) \<or>
   (lines p \<noteq> [] \<and> (\<exists>l. lines q = butlast (lines p) @ [l]))"
  by (auto simp: CRTranscriptParser_handle_data_def set_text_Inr split: if_splits)

lemma event_butlast:
  assumes "CRTranscriptParser_event p e = Inr q"
  shows "prefix (butlast (lines p)) (butlast (lines q))"
proof (cases e)
  case (StartTag tag as)
  with assms have "lines q = lines p"
    by (auto simp: CRTranscriptParser_handle_starttag_def split: if_splits)
  then show ?thesis by simp
next
  case (EndTag tag)
  with assms show ?thesis by simp
next
  case (Data d)
  with assms have "CRTranscriptParser_handle_data p d = Inr q" by simp
  from handle_data_lines [OF this] show ?thesis
    by (auto simp: prefixeq_butlast)
qed

lemma feed_butlast:
  "CRTranscriptParser_feed p es = Inr q \<Longrightarrow> prefix (butlast (lines p)) (lines q)"
proof (induction es arbitrary: p)
  case Nil
  then show ?case by (simp add: prefixeq_butlast)
next
  case (Cons e es)
  obtain p1 where p1: "CRTranscriptParser_event p e = Inr p1"
    using event_total by blast
  with Cons.prems have "CRTranscriptParser_feed p1 es = Inr q" by simp
  then have "prefix (butlast (lines p1)) (lines q)" by (rule Cons.IH)
  moreover have "prefix (butlast (lines p)) (butlast (lines p1))"
    using p1 by (rule event_butlast)
  ultimately show ?case by (rule prefix_order.trans [rotated])
qed

lemma feed_no_starttag:
  "process p = None \<Longrightarrow> \<forall>tag as. StartTag tag as \<notin> set es \<Longrightarrow>
   CRTranscriptParser_feed p es = Inr p"
proof (induction es)
  case Nil
  show ?case by simp
next
  case (Cons e es)
  from Cons.prems have "CRTranscriptParser_event p e = Inr p"
    by (cases e) auto
  with Cons show ?case by simp
qed

lemma feed_outside:
  "\<not> in_lines p \<Longrightarrow> process p = None \<Longrightarrow>
   \<forall>as. (''id'', Some ''lines'') \<in> set as \<longrightarrow> StartTag ''div'' as \<notin> set es \<Longrightarrow>
   CRTranscriptParser_feed p es = Inr p"
proof (induction es)
  case Nil
  show ?case by simp
next
  case (Cons e es)
  from Cons.prems have "CRTranscriptParser_event p e = Inr p"
    by (cases e) (auto simp: CRTranscriptParser_handle_starttag_def)
  with Cons show ?case by simp
qed

lemma event_named:
  assumes "CRTranscriptParser_event p e = Inr q" and "\<forall>l\<in>set (lines p). has_key l ''name''"
  shows "\<forall>l\<in>set (lines q). has_key l ''name''"
proof (cases e)
  case (StartTag tag as)
  with assms(1) have "lines q = lines p"
    by (auto simp: CRTranscriptParser_handle_starttag_def split: if_splits)
  with assms(2) show ?thesis by simp
next
  case (EndTag tag)
  with assms show ?thesis by simp
next
  case (Data d)
  with assms(1) have q: "CRTranscriptParser_handle_data p d = Inr q" by simp
  show ?thesis
  proof (cases "lines p" rule: rev_cases)
    case Nil
    with q show ?thesis
      by (auto simp: CRTranscriptParser_handle_data_def set_text_Inr has_key_def split: if_splits)
  next
    case (snoc ls l)
    with q assms(2) show ?thesis
      by (auto simp: CRTranscriptParser_handle_data_def set_text_Inr has_key_def split: if_splits)
  qed
qed

lemma feed_named:
  "CRTranscriptParser_feed p es = Inr q \<Longrightarrow> \<forall>l\<in>set (lines p). has_key l ''name'' \<Longrightarrow>
   \<forall>l\<in>set (lines q). has_key l ''name''"
proof (induction es arbitrary: p)
  case Nil
  then show ?case by simp
next
  case (Cons e es)
  obtain p1 where p1: "CRTranscriptParser_event p e = Inr p1"
    using event_total by blast
  with Cons.prems(1) have "CRTranscriptParser_feed p1 es = Inr q" by simp
  moreover have "\<forall>l\<in>set (lines p1). has_key l ''name''"
    using p1 Cons.prems(2) by (rule event_named)
  ultimately show ?case by (rule Cons.IH)
qed




section \<open>The handlers of \<^verbatim>\<open>CRIndexParser\<close> never raise\<close>

lemma index_starttag_Inr:
  "CRIndexParser_handle_starttag p tag as =
     Inr (if tag = ''main'' then p\<lparr>in_main := True\<rparr>
          else if tag = ''a'' \<and> in_main p then
            (case dict_get (dict as) ''href'' of
               None \<Rightarrow> p
             | Some h \<Rightarrow>
                 if re_match_at TRANSCRIPT_RE True h
                 then p\<lparr>transcript_files := insert h (transcript_files p)\<rparr> else p)
          else p)"
  by (simp add: CRIndexParser_handle_starttag_def re_match_def Let_def split: option.split)

lemma index_event_total: "\<exists>q. CRIndexParser_event p e = Inr q"
  by (cases e) (simp_all add: index_starttag_Inr CRIndexParser_handle_endtag_def)

lemma index_feed_total: "\<exists>q. CRIndexParser_feed p es = Inr q"
proof (induction es arbitrary: p)
  case Nil
  show ?case by simp
next
  case (Cons e es)
  obtain q where "CRIndexParser_event p e = Inr q"
    using index_event_total by blast
  with Cons.IH [of q] show ?case by simp
qed

lemma index_event_files:
  "CRIndexParser_event p e = Inr q \<Longrightarrow>
   transcript_files q = transcript_files p \<union>
     {h. \<exists>as. e = StartTag ''a'' as \<and> in_main p \<and> dict_get (dict as) ''href'' = Some h \<and>
           re_match TRANSCRIPT_RE (Some h) = Inr True}"
  by (cases e)
    (auto simp: index_starttag_Inr CRIndexParser_handle_endtag_def re_match_def
      split: if_splits option.splits)

lemma index_feed_files:
  "\<exists>q. CRIndexParser_feed p0 es = Inr q \<and>
        transcript_files q = transcript_files p0 \<union>
          {h. \<exists>pre as post p. es = pre @ StartTag ''a'' as # post \<and>
                CRIndexParser_feed p0 pre = Inr p \<and> in_main p \<and>
                dict_get (dict as) ''href'' = Some h \<and>
                re_match TRANSCRIPT_RE (Some h) = Inr True}"
proof (induction es arbitrary: p0)
  case Nil
  show ?case by simp
next
  case (Cons e es)
  obtain p1 where p1: "CRIndexParser_event p0 e = Inr p1"
    using index_event_total by blast
  from Cons.IH [of p1] obtain q where
    q: "CRIndexParser_feed p1 es = Inr q" and
    files: "transcript_files q = transcript_files p1 \<union>
          {h. \<exists>pre as post p. es = pre @ StartTag ''a'' as # post \<and>
                CRIndexParser_feed p1 pre = Inr p \<and> in_main p \<and>
                dict_get (dict as) ''href'' = Some h \<and>
                re_match TRANSCRIPT_RE (Some h) = Inr True}"
    by blast
  have split:
    "{h. \<exists>pre as post p. e # es = pre @ StartTag ''a'' as # post \<and>
                CRIndexParser_feed p0 pre = Inr p \<and> in_main p \<and>
                dict_get (dict as) ''href'' = Some h \<and>
                re_match TRANSCRIPT_RE (Some h) = Inr True} =
     {h. \<exists>as. e = StartTag ''a'' as \<and> in_main p0 \<and> dict_get (dict as) ''href'' = Some h \<and>
           re_match TRANSCRIPT_RE (Some h) = Inr True} \<union>
     {h. \<exists>pre as post p. es = pre @ StartTag ''a'' as # post \<and>
                CRIndexParser_feed p1 pre = Inr p \<and> in_main p \<and>
                dict_get (dict as) ''href'' = Some h \<and>
                re_match TRANSCRIPT_RE (Some h) = Inr True}"
    (is "?L = ?A \<union> ?R")
  proof (intro set_eqI iffI)
    fix h assume "h \<in> ?L"
    then obtain pre as post p where
      d: "e # es = pre @ StartTag ''a'' as # post" and
      f: "CRIndexParser_feed p0 pre = Inr p" and
      r: "in_main p" "dict_get (dict as) ''href'' = Some h"
         "re_match TRANSCRIPT_RE (Some h) = Inr True"
      by blast
    show "h \<in> ?A \<union> ?R"
    proof (cases pre)
      case Nil
      with d f r show ?thesis by simp
    next
      case (Cons x pre')
      with d have "x = e" and "es = pre' @ StartTag ''a'' as # post" by simp_all
      moreover from Cons f p1 \<open>x = e\<close> have "CRIndexParser_feed p1 pre' = Inr p" by simp
      ultimately have "h \<in> ?R" using r by blast
      then show ?thesis by simp
    qed
  next
    fix h assume "h \<in> ?A \<union> ?R"
    then show "h \<in> ?L"
    proof
      assume "h \<in> ?A"
      then obtain as where "e = StartTag ''a'' as" "in_main p0"
        "dict_get (dict as) ''href'' = Some h" "re_match TRANSCRIPT_RE (Some h) = Inr True"
        by blast
      then have "e # es = [] @ StartTag ''a'' as # es \<and> CRIndexParser_feed p0 [] = Inr p0 \<and>
        in_main p0 \<and> dict_get (dict as) ''href'' = Some h \<and>
        re_match TRANSCRIPT_RE (Some h) = Inr True"
        by simp
      then show ?thesis by blast
    next
      assume "h \<in> ?R"
      then obtain pre as post p where
        "es = pre @ StartTag ''a'' as # post" "CRIndexParser_feed p1 pre = Inr p"
        "in_main p" "dict_get (dict as) ''href'' = Some h"
        "re_match TRANSCRIPT_RE (Some h) = Inr True"
        by blast
      with p1 have "e # es = (e # pre) @ StartTag ''a'' as # post \<and>
        CRIndexParser_feed p0 (e # pre) = Inr p \<and>
        in_main p \<and> dict_get (dict as) ''href'' = Some h \<and>
        re_match TRANSCRIPT_RE (Some h) = Inr True"
        by simp
      then show ?thesis by blast
    qed
  qed
  from p1 q have "CRIndexParser_feed p0 (e # es) = Inr q" by simp
  moreover have "transcript_files q = transcript_files p0 \<union> ?L"
    unfolding split files index_event_files [OF p1] by (simp add: Un_assoc)
  ultimately show ?case by blast
qed

text \<open>
  \<^verbatim>\<open>in_main\<close> read off the document: it holds after a prefix exactly when the prefix has
  an open tag \<^verbatim>\<open>main\<close> with no close tag \<^verbatim>\<open>main\<close> after it (or it held at the start and
  the prefix has no close tag \<^verbatim>\<open>main\<close>).
\<close>

lemma index_event_in_main:
  "CRIndexParser_event p e = Inr q \<Longrightarrow>
   in_main q \<longleftrightarrow> (\<exists>am. e = StartTag ''main'' am) \<or> (in_main p \<and> e \<noteq> EndTag ''main'')"
  by (cases e)
    (auto simp: index_starttag_Inr CRIndexParser_handle_endtag_def split: if_splits option.splits)

lemma index_feed_in_main:
  "CRIndexParser_feed p0 es = Inr p \<Longrightarrow>
   in_main p \<longleftrightarrow>
     (\<exists>u am v. es = u @ StartTag ''main'' am # v \<and> EndTag ''main'' \<notin> set v) \<or>
     (in_main p0 \<and> EndTag ''main'' \<notin> set es)"
proof (induction es arbitrary: p0)
  case Nil
  then show ?case by simp
next
  case (Cons e es)
  obtain p1 where p1: "CRIndexParser_event p0 e = Inr p1"
    using index_event_total by blast
  with Cons.prems have run: "CRIndexParser_feed p1 es = Inr p" by simp
  have dec: "(\<exists>u am v. e # es = u @ StartTag ''main'' am # v \<and> EndTag ''main'' \<notin> set v) \<longleftrightarrow>
        ((\<exists>am. e = StartTag ''main'' am) \<and> EndTag ''main'' \<notin> set es) \<or>
        (\<exists>u am v. es = u @ StartTag ''main'' am # v \<and> EndTag ''main'' \<notin> set v)"
    by (auto simp: Cons_eq_append_conv)
  have tail: "(\<exists>u am v. es = u @ StartTag ''main'' am # v \<and> EndTag ''main'' \<notin> set v) \<or>
      EndTag ''main'' \<notin> set es \<or> True"
    by simp
  show ?case
    unfolding Cons.IH [OF run] index_event_in_main [OF p1] dec
    by auto
qed

section \<open>What \<^verbatim>\<open>TRANSCRIPT_RE\<close> matches\<close>

lemma re_DotPlus:
  "re_match_at (DotPlus # ns) b s \<longleftrightarrow>
     (\<exists>u v. s = u @ v \<and> u \<noteq> [] \<and> CHR 0x0A \<notin> set u \<and> re_match_at ns False v)"
proof (induction s arbitrary: b)
  case Nil
  show ?case by simp
next
  case (Cons x xs)
  show ?case
  proof
    assume "re_match_at (DotPlus # ns) b (x # xs)"
    then have x: "x \<noteq> CHR 0x0A" and
      alt: "re_match_at (DotPlus # ns) False xs \<or> re_match_at ns False xs"
      by simp_all
    from alt show "\<exists>u v. x # xs = u @ v \<and> u \<noteq> [] \<and> CHR 0x0A \<notin> set u \<and> re_match_at ns False v"
    proof
      assume "re_match_at (DotPlus # ns) False xs"
      then obtain u v where "xs = u @ v" "CHR 0x0A \<notin> set u" "re_match_at ns False v"
        using Cons.IH by blast
      with x have "x # xs = (x # u) @ v \<and> x # u \<noteq> [] \<and> CHR 0x0A \<notin> set (x # u) \<and>
        re_match_at ns False v"
        by auto
      then show ?thesis by blast
    next
      assume "re_match_at ns False xs"
      with x have "x # xs = [x] @ xs \<and> [x] \<noteq> [] \<and> CHR 0x0A \<notin> set [x] \<and>
        re_match_at ns False xs"
        by auto
      then show ?thesis by blast
    qed
  next
    assume "\<exists>u v. x # xs = u @ v \<and> u \<noteq> [] \<and> CHR 0x0A \<notin> set u \<and> re_match_at ns False v"
    then obtain u v where uv: "x # xs = u @ v" "u \<noteq> []" "CHR 0x0A \<notin> set u"
      "re_match_at ns False v"
      by blast
    then obtain u' where u: "u = x # u'" and xs: "xs = u' @ v"
      by (cases u) auto
    show "re_match_at (DotPlus # ns) b (x # xs)"
    proof (cases "u' = []")
      case True
      with uv u xs show ?thesis by auto
    next
      case False
      with uv u xs have "re_match_at (DotPlus # ns) False xs"
        using Cons.IH by auto
      with uv u show ?thesis by auto
    qed
  qed
qed

lemma re_Lits:
  "w \<noteq> [] \<Longrightarrow>
   re_match_at (map Lit w @ ns) b s \<longleftrightarrow> (\<exists>t. s = w @ t \<and> re_match_at ns False t)"
proof (induction w arbitrary: b s)
  case Nil
  then show ?case by simp
next
  case (Cons x w)
  show ?case
  proof (cases "w = []")
    case True
    then show ?thesis by (cases s) auto
  next
    case False
    then show ?thesis using Cons.IH [of False] by (cases s) auto
  qed
qed

lemma re_Eol: "re_match_at [Eol] b s \<longleftrightarrow> s = [] \<or> s = [CHR 0x0A]"
  by simp

lemma TRANSCRIPT_RE_iff:
  "re_match_at TRANSCRIPT_RE True s \<longleftrightarrow>
     (\<exists>m. m \<noteq> [] \<and> CHR 0x0A \<notin> set m \<and>
          (s = ''cr'' @ m @ ''.html'' \<or> s = ''cr'' @ m @ ''.html'' @ [CHR 0x0A]))"
proof -
  have "re_match_at TRANSCRIPT_RE True s \<longleftrightarrow>
        re_match_at (map Lit ''cr'' @ DotPlus # map Lit ''.html'' @ [Eol]) True s"
    by (simp add: TRANSCRIPT_RE_def)
  also have "\<dots> \<longleftrightarrow>
        (\<exists>t. s = ''cr'' @ t \<and> re_match_at (DotPlus # map Lit ''.html'' @ [Eol]) False t)"
    by (rule re_Lits) simp
  also have "\<dots> \<longleftrightarrow>
        (\<exists>t. s = ''cr'' @ t \<and>
           (\<exists>m v. t = m @ v \<and> m \<noteq> [] \<and> CHR 0x0A \<notin> set m \<and>
              re_match_at (map Lit ''.html'' @ [Eol]) False v))"
    by (simp only: re_DotPlus)
  also have "\<dots> \<longleftrightarrow>
        (\<exists>t. s = ''cr'' @ t \<and>
           (\<exists>m v. t = m @ v \<and> m \<noteq> [] \<and> CHR 0x0A \<notin> set m \<and>
              (\<exists>w. v = ''.html'' @ w \<and> (w = [] \<or> w = [CHR 0x0A]))))"
  proof -
    have "re_match_at (map Lit ''.html'' @ [Eol]) False v \<longleftrightarrow>
          (\<exists>w. v = ''.html'' @ w \<and> (w = [] \<or> w = [CHR 0x0A]))" for v
      by (subst re_Lits) (simp_all only: re_Eol, simp)
    then show ?thesis by (simp only:)
  qed
  also have "\<dots> \<longleftrightarrow>
     (\<exists>m. m \<noteq> [] \<and> CHR 0x0A \<notin> set m \<and>
          (s = ''cr'' @ m @ ''.html'' \<or> s = ''cr'' @ m @ ''.html'' @ [CHR 0x0A]))"
    by blast
  finally show ?thesis .
qed

lemma TRANSCRIPT_RE_no_newline:
  assumes "CHR 0x0A \<notin> set s"
  shows "re_match_at TRANSCRIPT_RE True s \<longleftrightarrow>
           prefix ''cr'' s \<and> suffix ''.html'' s \<and> 8 \<le> length s"
proof
  assume "re_match_at TRANSCRIPT_RE True s"
  then obtain m where m: "m \<noteq> []" and
    s: "s = ''cr'' @ m @ ''.html'' \<or> s = ''cr'' @ m @ ''.html'' @ [CHR 0x0A]"
    unfolding TRANSCRIPT_RE_iff by blast
  from s assms have s': "s = ''cr'' @ m @ ''.html''" by auto
  have "suffix ''.html'' (''cr'' @ m @ ''.html'')"
    by (intro suffix_appendI) simp
  moreover from m have "1 \<le> length m" by (cases m) simp_all
  ultimately show "prefix ''cr'' s \<and> suffix ''.html'' s \<and> 8 \<le> length s"
    unfolding s' by simp
next
  assume a: "prefix ''cr'' s \<and> suffix ''.html'' s \<and> 8 \<le> length s"
  then obtain r where r: "s = ''cr'' @ r" by (auto simp: prefix_def)
  from a obtain z where z: "s = z @ ''.html''" by (auto simp: suffix_def)
  from a z have len: "3 \<le> length z" by simp
  define m where "m = drop 2 z"
  have "take 2 s = ''cr''" unfolding r by simp
  moreover have "take 2 s = take 2 z" using len unfolding z by simp
  ultimately have tz: "take 2 z = ''cr''" by simp
  have "take 2 z @ drop 2 z = z" by (rule append_take_drop_id)
  then have "''cr'' @ m = z" unfolding tz m_def .
  then have zm: "z = ''cr'' @ m" by (rule sym)
  have "m \<noteq> []" using len by (simp add: m_def)
  moreover have sm: "s = ''cr'' @ m @ ''.html''" by (simp only: z zm append_assoc)
  moreover have "CHR 0x0A \<notin> set m" using assms unfolding sm by simp
  ultimately show "re_match_at TRANSCRIPT_RE True s"
    unfolding TRANSCRIPT_RE_iff by blast
qed

section \<open>The claims about the Transcript Extractor\<close>

text \<open>
  Claim C1. The document made of the open tag of the lines container, the name marker
  with the data \<^verbatim>\<open>Matt\<close>, the dialogue marker with \<^verbatim>\<open>Welcome back.\<close>, the name marker with
  \<^verbatim>\<open>Laura\<close>, the dialogue marker with \<^verbatim>\<open>Thanks!\<close> and a second dialogue marker with
  \<^verbatim>\<open>Let's go.\<close> is parsed without an exception into exactly the two lines
  (Matt, Welcome back.) and (Laura, Thanks! Let's go.), and the loop of \<^verbatim>\<open>main\<close> with names
  included writes \<^verbatim>\<open>**Matt**: Welcome back.\<close>, a line feed,
  \<^verbatim>\<open>**Laura**: Thanks! Let's go.\<close> and a line feed.
\<close>

theorem example_matt_laura:
  "CRTranscriptParser_feed CRTranscriptParser_init
     [StartTag ''div'' [(''id'', Some ''lines'')],
      StartTag ''strong'' [], Data ''Matt'',
      StartTag ''dd'' [], Data ''Welcome back.'',
      StartTag ''strong'' [], Data ''Laura'',
      StartTag ''dd'' [], Data ''Thanks!'',
      StartTag ''dd'' [], Data ''Let's go.''] =
   Inr \<lparr>in_lines = True,
        lines = [[''name'' \<mapsto> ''Matt'', ''text'' \<mapsto> ''Welcome back.''],
                 [''name'' \<mapsto> ''Laura'', ''text'' \<mapsto> ''Thanks! Let's go.'']],
        process = None\<rparr> \<and>
   write_lines True
     [[''name'' \<mapsto> ''Matt'', ''text'' \<mapsto> ''Welcome back.''],
      [''name'' \<mapsto> ''Laura'', ''text'' \<mapsto> ''Thanks! Let's go.'']] =
   Inr ''**Matt**: Welcome back.\<newline>**Laura**: Thanks! Let's go.\<newline>''"
  by (simp add: CRTranscriptParser_init_def CRTranscriptParser_handle_starttag_def
      CRTranscriptParser_handle_data_def set_text_def getitem_last_def getitem_def has_key_def
      truthy_def strip_def isspace_def write_line_def)

text \<open>
  Claim C2. From every parser state inside the lines region (so after any prefix of a
  document that has opened the container), a Name event followed by two Text events, each
  behind its own \<^verbatim>\<open>dd\<close> open tag, with any events other than marker tags in between and
  after, appends exactly one line: its name is the stripped name data and its text is the
  stripped data of the first Text event, one space, and the stripped data of the second.
  When the next Name event follows, whatever comes after it, that line is still in the
  result, unchanged, right after the lines that were there before.
\<close>

theorem two_text_events_merge:
  assumes "in_lines p" and "\<forall>e\<in>set (g1 @ g2 @ g3). no_marker e"
  shows "CRTranscriptParser_feed p
           (StartTag ''strong'' a1 # Data n # g1 @ StartTag ''dd'' a2 # Data t1 # g2 @
            StartTag ''dd'' a3 # Data t2 # g3) =
         Inr (p\<lparr>lines := lines p @
                  [[''name'' \<mapsto> strip n, ''text'' \<mapsto> strip t1 @ '' '' @ strip t2]],
                process := None\<rparr>) \<and>
         (\<forall>a4 n' rest. \<exists>q.
            CRTranscriptParser_feed p
              ((StartTag ''strong'' a1 # Data n # g1 @ StartTag ''dd'' a2 # Data t1 # g2 @
                StartTag ''dd'' a3 # Data t2 # g3) @ StartTag ''strong'' a4 # Data n' # rest) =
            Inr q \<and>
            prefix (lines p @ [[''name'' \<mapsto> strip n, ''text'' \<mapsto> strip t1 @ '' '' @ strip t2]])
              (lines q))"
proof -
  let ?evs = "StartTag ''strong'' a1 # Data n # g1 @ StartTag ''dd'' a2 # Data t1 # g2 @
            StartTag ''dd'' a3 # Data t2 # g3"
  let ?r = "[''name'' \<mapsto> strip n, ''text'' \<mapsto> strip t1 @ '' '' @ strip t2]"
  let ?p' = "p\<lparr>lines := lines p @ [?r], process := None\<rparr>"
  have six: "CRTranscriptParser_feed p ?evs = Inr ?p'"
    using assms
    by (simp add: feed_name feed_gap feed_text [where ls = "lines p"] feed_no_marker
        del: CRTranscriptParser_feed.simps)
  have "\<exists>q. CRTranscriptParser_feed p (?evs @ StartTag ''strong'' a4 # Data n' # rest) = Inr q \<and>
          prefix (lines p @ [?r]) (lines q)" for a4 n' rest
  proof -
    let ?p'' = "?p'\<lparr>lines := lines ?p' @ [[''name'' \<mapsto> strip n']], process := None\<rparr>"
    obtain q where q: "CRTranscriptParser_feed ?p'' rest = Inr q"
      using feed_total by blast
    have "CRTranscriptParser_feed p (?evs @ StartTag ''strong'' a4 # Data n' # rest) = Inr q"
      using assms(1) q by (simp only: feed_append six sum.case)
        (simp add: feed_name del: CRTranscriptParser_feed.simps)
    moreover have "prefix (lines p @ [?r]) (lines q)"
      using feed_butlast [OF q] by (simp add: butlast_append)
    ultimately show ?thesis by blast
  qed
  with six show ?thesis by blast
qed

theorem two_text_events_merge_witness:
  "in_lines \<lparr>in_lines = True, lines = [], process = None\<rparr> \<and>
   list_all no_marker ([EndTag ''strong''] @ [EndTag ''dd'', Data ''  ''] @ [EndTag ''dd'']) \<and>
   CRTranscriptParser_feed \<lparr>in_lines = True, lines = [], process = None\<rparr>
     [StartTag ''strong'' [], Data '' Laura'', EndTag ''strong'',
      StartTag ''dd'' [], Data ''Thanks! '', EndTag ''dd'', Data ''  '',
      StartTag ''dd'' [], Data ''Let's go.'', EndTag ''dd''] =
   Inr \<lparr>in_lines = True,
        lines = [[''name'' \<mapsto> ''Laura'', ''text'' \<mapsto> ''Thanks! Let's go.'']],
        process = None\<rparr>"
proof -
  let ?p = "\<lparr>in_lines = True, lines = [], process = None\<rparr>"
  have h1: "in_lines ?p" by simp
  have h2: "\<forall>e\<in>set ([EndTag ''strong''] @ [EndTag ''dd'', Data ''  ''] @ [EndTag ''dd'']). no_marker e"
    by (simp add: no_marker_def)
  from two_text_events_merge [OF h1 h2, of "[]" "'' Laura''" "[]" "''Thanks! ''" "[]" "''Let's go.''"]
  have "CRTranscriptParser_feed ?p
     [StartTag ''strong'' [], Data '' Laura'', EndTag ''strong'',
      StartTag ''dd'' [], Data ''Thanks! '', EndTag ''dd'', Data ''  '',
      StartTag ''dd'' [], Data ''Let's go.'', EndTag ''dd''] =
     Inr (?p\<lparr>lines := lines ?p @
            [[''name'' \<mapsto> strip '' Laura'',
              ''text'' \<mapsto> strip ''Thanks! '' @ '' '' @ strip ''Let's go.'']],
          process := None\<rparr>)"
    by (simp del: CRTranscriptParser_feed.simps)
  with h1 h2 show ?thesis
    by (simp add: strip_def isspace_def list_all_iff del: CRTranscriptParser_feed.simps)
qed




text \<open>
  Claim C4. \<^verbatim>\<open>handle_data\<close> returns, in every state and whatever \<^verbatim>\<open>self.process\<close> holds
  (also a value that is neither \<^verbatim>\<open>"name"\<close> nor \<^verbatim>\<open>"text"\<close>), a state whose
  \<^verbatim>\<open>process\<close> is \<^verbatim>\<open>None\<close>. In that state a second data event changes nothing, and neither
  do any events that come before the next open tag.
\<close>

theorem process_reset_after_data:
  assumes "\<forall>tag as. StartTag tag as \<notin> set es"
  shows "\<exists>q. CRTranscriptParser_handle_data p d = Inr q \<and> process q = None \<and>
             (\<forall>d'. CRTranscriptParser_handle_data q d' = Inr q) \<and>
             CRTranscriptParser_feed q es = Inr q \<and>
             CRTranscriptParser_feed p (Data d # es) = Inr q"
proof -
  obtain q where q: "CRTranscriptParser_handle_data p d = Inr q" "process q = None"
    using handle_data_total by blast
  then have "CRTranscriptParser_feed q es = Inr q"
    using assms by (simp add: feed_no_starttag)
  with q show ?thesis by simp
qed

theorem process_reset_after_data_witness:
  "CRTranscriptParser_handle_data \<lparr>in_lines = True, lines = [], process = Some ''name''\<rparr> '' Sam '' =
     Inr \<lparr>in_lines = True, lines = [[''name'' \<mapsto> ''Sam'']], process = None\<rparr> \<and>
   CRTranscriptParser_feed \<lparr>in_lines = True, lines = [], process = Some ''name''\<rparr>
     [Data '' Sam '', Data ''again'', EndTag ''strong''] =
     Inr \<lparr>in_lines = True, lines = [[''name'' \<mapsto> ''Sam'']], process = None\<rparr>"
proof -
  have h: "\<forall>tag as. StartTag tag as \<notin> set [Data ''again'', EndTag ''strong'']"
    by simp
  from process_reset_after_data [OF h, of "\<lparr>in_lines = True, lines = [], process = Some ''name''\<rparr>" "'' Sam ''"]
  show ?thesis
    by (auto simp: handle_data_name strip_def isspace_def simp del: CRTranscriptParser_feed.simps)
qed

text \<open>
  Claim C7. A data event that arrives while \<^verbatim>\<open>process\<close> is \<^verbatim>\<open>None\<close> leaves the whole
  state as it is. A data event for the \<^verbatim>\<open>"text"\<close> field that arrives while there is no
  line yet returns without an exception, adds no line and only resets \<^verbatim>\<open>process\<close>; so
  does a whole Text event (the \<^verbatim>\<open>dd\<close> open tag and its data) inside the lines region.
\<close>

theorem unattributed_data_discarded:
  "(process p = None \<longrightarrow> CRTranscriptParser_handle_data p d = Inr p) \<and>
   (process p = Some ''text'' \<and> lines p = [] \<longrightarrow>
      CRTranscriptParser_handle_data p d = Inr (p\<lparr>process := None\<rparr>)) \<and>
   (in_lines p \<and> lines p = [] \<longrightarrow>
      CRTranscriptParser_feed p [StartTag ''dd'' as, Data d] = Inr (p\<lparr>process := None\<rparr>))"
  by (simp add: handle_data_text CRTranscriptParser_handle_starttag_def)

theorem unattributed_data_discarded_witness:
  "CRTranscriptParser_handle_data \<lparr>in_lines = True, lines = [[''name'' \<mapsto> ''Sam'']], process = None\<rparr> ''stray'' =
     Inr \<lparr>in_lines = True, lines = [[''name'' \<mapsto> ''Sam'']], process = None\<rparr> \<and>
   CRTranscriptParser_handle_data \<lparr>in_lines = True, lines = [], process = Some ''text''\<rparr> ''early'' =
     Inr \<lparr>in_lines = True, lines = [], process = None\<rparr> \<and>
   CRTranscriptParser_feed \<lparr>in_lines = True, lines = [], process = None\<rparr>
     [StartTag ''dd'' [], Data ''early''] =
     Inr \<lparr>in_lines = True, lines = [], process = None\<rparr>"
  using
    unattributed_data_discarded [of "\<lparr>in_lines = True, lines = [[''name'' \<mapsto> ''Sam'']], process = None\<rparr>" "''stray''"]
    unattributed_data_discarded [of "\<lparr>in_lines = True, lines = [], process = Some ''text''\<rparr>" "''early''"]
    unattributed_data_discarded [of "\<lparr>in_lines = True, lines = [], process = None\<rparr>" "''early''" "[]"]
  by (simp del: CRTranscriptParser_feed.simps)

text \<open>
  Claim C8. When no event of the document is an open tag \<^verbatim>\<open>div\<close> with the attribute
  \<^verbatim>\<open>id="lines"\<close>, the parse ends in the initial state: the list of lines is empty.
\<close>

theorem no_container_no_lines:
  assumes "\<forall>as. (''id'', Some ''lines'') \<in> set as \<longrightarrow> StartTag ''div'' as \<notin> set es"
  shows "CRTranscriptParser_feed CRTranscriptParser_init es = Inr CRTranscriptParser_init \<and>
         lines CRTranscriptParser_init = []"
proof -
  have "\<not> in_lines CRTranscriptParser_init" and "process CRTranscriptParser_init = None"
    by (simp_all add: CRTranscriptParser_init_def)
  then have "CRTranscriptParser_feed CRTranscriptParser_init es = Inr CRTranscriptParser_init"
    using assms by (rule feed_outside)
  then show ?thesis by (simp add: CRTranscriptParser_init_def)
qed

theorem no_container_no_lines_witness:
  "CRTranscriptParser_feed CRTranscriptParser_init
     [StartTag ''div'' [(''id'', Some ''other'')], StartTag ''strong'' [], Data ''Matt'',
      EndTag ''strong'', StartTag ''dd'' [], Data ''Welcome back.'', EndTag ''dd'', EndTag ''div''] =
   Inr CRTranscriptParser_init \<and>
   lines CRTranscriptParser_init = []"
proof -
  have h: "\<forall>as. (''id'', Some ''lines'') \<in> set as \<longrightarrow> StartTag ''div'' as \<notin>
     set [StartTag ''div'' [(''id'', Some ''other'')], StartTag ''strong'' [], Data ''Matt'',
      EndTag ''strong'', StartTag ''dd'' [], Data ''Welcome back.'', EndTag ''dd'', EndTag ''div'']"
    by auto
  from no_container_no_lines [OF h] show ?thesis .
qed

text \<open>
  Claim C10. For every document, the parse returns and every line of the result has the
  key \<^verbatim>\<open>"name"\<close>.
\<close>

theorem lines_have_speaker:
  "\<exists>q. CRTranscriptParser_feed CRTranscriptParser_init es = Inr q \<and>
        (\<forall>l\<in>set (lines q). has_key l ''name'')"
proof -
  obtain q where q: "CRTranscriptParser_feed CRTranscriptParser_init es = Inr q"
    using feed_total by blast
  moreover have "\<forall>l\<in>set (lines CRTranscriptParser_init). has_key l ''name''"
    by (simp add: CRTranscriptParser_init_def)
  ultimately have "\<forall>l\<in>set (lines q). has_key l ''name''"
    by (rule feed_named)
  with q show ?thesis by blast
qed

theorem lines_have_speaker_witness:
  "CRTranscriptParser_feed CRTranscriptParser_init
     [StartTag ''div'' [(''id'', Some ''lines'')], StartTag ''dd'' [], Data ''early'',
      StartTag ''strong'' [], Data ''Matt'', StartTag ''dd'' [], Data ''Hi''] =
   Inr \<lparr>in_lines = True, lines = [[''name'' \<mapsto> ''Matt'', ''text'' \<mapsto> ''Hi'']],
        process = None\<rparr> \<and>
   has_key [''name'' \<mapsto> ''Matt'', ''text'' \<mapsto> ''Hi''] ''name''"
proof -
  let ?es = "[StartTag ''div'' [(''id'', Some ''lines'')], StartTag ''dd'' [], Data ''early'',
      StartTag ''strong'' [], Data ''Matt'', StartTag ''dd'' [], Data ''Hi'']"
  let ?q = "\<lparr>in_lines = True, lines = [[''name'' \<mapsto> ''Matt'', ''text'' \<mapsto> ''Hi'']],
        process = None\<rparr>"
  have run: "CRTranscriptParser_feed CRTranscriptParser_init ?es = Inr ?q"
    by (simp add: CRTranscriptParser_init_def CRTranscriptParser_handle_starttag_def
        handle_data_name handle_data_text strip_def isspace_def)
  from lines_have_speaker [of ?es] obtain q where
    "CRTranscriptParser_feed CRTranscriptParser_init ?es = Inr q" and
    all: "\<forall>l\<in>set (lines q). has_key l ''name''"
    by blast
  with run have "q = ?q" by (simp del: CRTranscriptParser_feed.simps)
  with all have "has_key [''name'' \<mapsto> ''Matt'', ''text'' \<mapsto> ''Hi''] ''name''" by simp
  with run show ?thesis by (simp del: CRTranscriptParser_feed.simps)
qed

section \<open>The claims about the Index Extractor\<close>

text \<open>
  Claim C5. For every index document the parse returns, and a string is in
  \<^verbatim>\<open>transcript_files\<close> exactly when the document has an \<^verbatim>\<open>a\<close> open tag whose \<^verbatim>\<open>href\<close>
  is that string, the string matches \<^verbatim>\<open>TRANSCRIPT_RE\<close>, and the tag is inside the main
  region: an open tag \<^verbatim>\<open>main\<close> comes before it with no close tag \<^verbatim>\<open>main\<close> between the
  two. In particular a document with a link outside the main region, the same link after
  it, and a matching link inside yields the inside link only.
\<close>

theorem links_inside_main_only:
  "(\<exists>q. CRIndexParser_feed CRIndexParser_init es = Inr q \<and>
        transcript_files q =
          {h. \<exists>u am v as post.
                es = u @ StartTag ''main'' am # v @ StartTag ''a'' as # post \<and>
                EndTag ''main'' \<notin> set v \<and>
                dict_get (dict as) ''href'' = Some h \<and>
                re_match TRANSCRIPT_RE (Some h) = Inr True}) \<and>
   (re_match TRANSCRIPT_RE (Some h_in) = Inr True \<and> h_out \<noteq> h_in \<longrightarrow>
      CRIndexParser_feed CRIndexParser_init
        [StartTag ''a'' [(''href'', Some h_out)], StartTag ''main'' [],
         StartTag ''a'' [(''href'', Some h_in)], EndTag ''main'',
         StartTag ''a'' [(''href'', Some h_out)]] =
      Inr \<lparr>in_main = False, transcript_files = {h_in}\<rparr>)"
proof -
  from index_feed_files [of CRIndexParser_init es] obtain q where
    q: "CRIndexParser_feed CRIndexParser_init es = Inr q" and
    files: "transcript_files q =
          {h. \<exists>pre as post p. es = pre @ StartTag ''a'' as # post \<and>
                CRIndexParser_feed CRIndexParser_init pre = Inr p \<and> in_main p \<and>
                dict_get (dict as) ''href'' = Some h \<and>
                re_match TRANSCRIPT_RE (Some h) = Inr True}"
    by (auto simp: CRIndexParser_init_def)
  have inside: "(\<exists>p. CRIndexParser_feed CRIndexParser_init pre = Inr p \<and> in_main p) \<longleftrightarrow>
      (\<exists>u am v. pre = u @ StartTag ''main'' am # v \<and> EndTag ''main'' \<notin> set v)" for pre
  proof -
    obtain p where p: "CRIndexParser_feed CRIndexParser_init pre = Inr p"
      using index_feed_total by blast
    from index_feed_in_main [OF p] have
      "in_main p \<longleftrightarrow> (\<exists>u am v. pre = u @ StartTag ''main'' am # v \<and> EndTag ''main'' \<notin> set v)"
      by (simp add: CRIndexParser_init_def)
    with p show ?thesis by simp
  qed
  have "transcript_files q =
          {h. \<exists>u am v as post.
                es = u @ StartTag ''main'' am # v @ StartTag ''a'' as # post \<and>
                EndTag ''main'' \<notin> set v \<and>
                dict_get (dict as) ''href'' = Some h \<and>
                re_match TRANSCRIPT_RE (Some h) = Inr True}"
    (is "_ = ?R")
  proof (intro set_eqI iffI)
    fix h assume "h \<in> transcript_files q"
    with files obtain pre as post p where
      es: "es = pre @ StartTag ''a'' as # post" and
      p: "CRIndexParser_feed CRIndexParser_init pre = Inr p" "in_main p" and
      h: "dict_get (dict as) ''href'' = Some h" "re_match TRANSCRIPT_RE (Some h) = Inr True"
      by blast
    from p inside [of pre] obtain u am v where
      "pre = u @ StartTag ''main'' am # v" "EndTag ''main'' \<notin> set v"
      by blast
    with es h have "es = u @ StartTag ''main'' am # v @ StartTag ''a'' as # post \<and>
      EndTag ''main'' \<notin> set v \<and> dict_get (dict as) ''href'' = Some h \<and>
      re_match TRANSCRIPT_RE (Some h) = Inr True"
      by simp
    then show "h \<in> ?R" by blast
  next
    fix h assume "h \<in> ?R"
    then obtain u am v as post where
      es: "es = u @ StartTag ''main'' am # v @ StartTag ''a'' as # post" and
      v: "EndTag ''main'' \<notin> set v" and
      h: "dict_get (dict as) ''href'' = Some h" "re_match TRANSCRIPT_RE (Some h) = Inr True"
      by blast
    from v inside [of "u @ StartTag ''main'' am # v"] obtain p where
      "CRIndexParser_feed CRIndexParser_init (u @ StartTag ''main'' am # v) = Inr p" "in_main p"
      by blast
    moreover from es have "es = (u @ StartTag ''main'' am # v) @ StartTag ''a'' as # post"
      by simp
    ultimately show "h \<in> transcript_files q"
      unfolding files using h by blast
  qed
  moreover have "CRIndexParser_feed CRIndexParser_init
        [StartTag ''a'' [(''href'', Some h_out)], StartTag ''main'' [],
         StartTag ''a'' [(''href'', Some h_in)], EndTag ''main'',
         StartTag ''a'' [(''href'', Some h_out)]] =
      Inr \<lparr>in_main = False, transcript_files = {h_in}\<rparr>"
    if "re_match TRANSCRIPT_RE (Some h_in) = Inr True"
    using that
    by (simp add: CRIndexParser_init_def index_starttag_Inr CRIndexParser_handle_endtag_def
        dict_def dict_get_def re_match_def)
  ultimately show ?thesis using q by blast
qed

theorem links_inside_main_only_witness:
  "CRIndexParser_feed CRIndexParser_init
     [StartTag ''a'' [(''href'', Some ''cr2.html'')], StartTag ''main'' [],
      StartTag ''a'' [(''href'', Some ''cr1.html'')], EndTag ''main'',
      StartTag ''a'' [(''href'', Some ''cr2.html'')]] =
   Inr \<lparr>in_main = False, transcript_files = {''cr1.html''}\<rparr>"
proof -
  have h: "re_match TRANSCRIPT_RE (Some ''cr1.html'') = Inr True \<and> ''cr2.html'' \<noteq> ''cr1.html''"
    by (simp add: re_match_def TRANSCRIPT_RE_def)
  from links_inside_main_only [of "[]" "''cr1.html''" "''cr2.html''"] h
  show ?thesis by blast
qed

text \<open>
  Claim C6, as stated: inside the main region a target is added exactly when it starts
  with \<^verbatim>\<open>cr\<close> and ends with \<^verbatim>\<open>.html\<close>. The target \<^verbatim>\<open>cr.html\<close> does both and is not
  added: \<^verbatim>\<open>.+\<close> asks for at least one character between the two.
\<close>

theorem pattern_prefix_suffix_counterexample:
  "prefix ''cr'' ''cr.html'' \<and> suffix ''.html'' ''cr.html'' \<and>
   CRIndexParser_handle_starttag \<lparr>in_main = True, transcript_files = {}\<rparr> ''a''
     [(''href'', Some ''cr.html'')] =
   Inr \<lparr>in_main = True, transcript_files = {}\<rparr>"
proof -
  have "suffix ''.html'' (''cr'' @ ''.html'')" by (rule suffix_appendI) simp
  then show ?thesis
    by (simp add: CRIndexParser_handle_starttag_def dict_def dict_get_def re_match_def
        TRANSCRIPT_RE_def)
qed

text \<open>
  Claim C6, amended. Inside the main region, a target without a line feed is added
  exactly when it starts with \<^verbatim>\<open>cr\<close>, ends with \<^verbatim>\<open>.html\<close> and has at least one character
  between the two, that is at least eight characters; the comparison is by character, so
  it is case-sensitive.
\<close>

theorem pattern_on_single_line_targets:
  assumes "in_main p" and "dict_get (dict as) ''href'' = Some h" and "CHR 0x0A \<notin> set h"
  shows "CRIndexParser_handle_starttag p ''a'' as =
         Inr (if prefix ''cr'' h \<and> suffix ''.html'' h \<and> 8 \<le> length h
              then p\<lparr>transcript_files := insert h (transcript_files p)\<rparr> else p)"
  using assms by (simp add: index_starttag_Inr TRANSCRIPT_RE_no_newline)

theorem pattern_on_single_line_targets_witness:
  "in_main \<lparr>in_main = True, transcript_files = {}\<rparr> \<and>
   dict_get (dict [(''href'', Some ''cr1.html'')]) ''href'' = Some ''cr1.html'' \<and>
   CHR 0x0A \<notin> set ''cr1.html'' \<and>
   CRIndexParser_handle_starttag \<lparr>in_main = True, transcript_files = {}\<rparr> ''a''
     [(''href'', Some ''cr1.html'')] =
   Inr \<lparr>in_main = True, transcript_files = {''cr1.html''}\<rparr>"
proof -
  let ?p = "\<lparr>in_main = True, transcript_files = {}\<rparr>"
  have h1: "in_main ?p" by simp
  have h2: "dict_get (dict [(''href'', Some ''cr1.html'')]) ''href'' = Some ''cr1.html''"
    by (simp add: dict_def dict_get_def)
  have h3: "CHR 0x0A \<notin> set ''cr1.html''" by simp
  have "suffix ''.html'' (''cr1'' @ ''.html'')" by (rule suffix_appendI) simp
  then have h4: "prefix ''cr'' ''cr1.html'' \<and> suffix ''.html'' ''cr1.html'' \<and> 8 \<le> length ''cr1.html''"
    by simp
  from pattern_on_single_line_targets [OF h1 h2 h3] h4
  have "CRIndexParser_handle_starttag ?p ''a'' [(''href'', Some ''cr1.html'')] =
    Inr (?p\<lparr>transcript_files := insert ''cr1.html'' (transcript_files ?p)\<rparr>)"
    by (simp only: simp_thms if_True)
  with h1 h2 h3 show ?thesis by simp
qed

section \<open>No exception in either extractor\<close>


end
